theory Spec2Isabelle
  imports Main "HOL-Library.Word" "HOL-Library.Signed_Division" "HOL-Library.Multiset"
begin

section \<open>Machine integers of the source\<close>

text \<open>
  \<^verbatim>\<open>exact_avg.cpp\<close> works on two integer types of the Vertica SDK: \<^verbatim>\<open>int32\<close>
  (precision, scale, digit counter) and \<^verbatim>\<open>vint\<close>, the signed 64-bit integer of the
  intermediate columns \<^verbatim>\<open>cnt\<close>, \<^verbatim>\<open>p_in\<close> and \<^verbatim>\<open>s_in\<close>. Both are words here,
  read through \<open>sint\<close>; every comparison of the source is the signed one
  (\<open><s\<close> and \<open>\<le>s\<close>). The source checks no addition for overflow: \<open>+\<close> wraps
  around.
\<close>

type_synonym int32 = "32 word"
type_synonym vint = "64 word"

definition MAX_NUMERIC_PRECISION :: int32 where
  "MAX_NUMERIC_PRECISION = 1024"

text \<open>The implicit conversion of an \<^verbatim>\<open>int32\<close> to \<^verbatim>\<open>vint\<close> (sign extension), and
  \<^verbatim>\<open>static_cast<int32>\<close> of a \<^verbatim>\<open>vint\<close> (truncation).\<close>

definition widen :: "int32 \<Rightarrow> vint" where
  "widen x = scast x"

definition narrow :: "vint \<Rightarrow> int32" where
  "narrow x = scast x"

text \<open>C++ division of two \<^verbatim>\<open>vint\<close>s truncates towards zero.\<close>

definition vint_div :: "vint \<Rightarrow> vint \<Rightarrow> vint" where
  "vint_div a b = word_of_int (sint a sdiv sint b)"

section \<open>Errors\<close>

text \<open>
  Every \<^verbatim>\<open>vt_report_error\<close> of the source aborts the call. The constructors follow the
  error taxonomy of the specification; \<open>CorruptState\<close> carries which of the four
  internal checks of \<^verbatim>\<open>terminate\<close> fired and the offending value.
\<close>

datatype corrupt = StoredScale | StoredPrecision | NegativeRowCount | ZeroDigitCount

datatype error =
    WrongArgumentCount
  | NotNumeric
  | InvalidInputShape int32
  | CorruptState corrupt vint
  | PrecisionExceeded int32 int32 int32 vint int32

section \<open>The factory: output and intermediate types\<close>

record VerticaType =
  isNumeric :: bool
  getNumericPrecision :: int32
  getNumericScale :: int32

datatype column = NumericColumn int32 int32 string | IntColumn string

text \<open>\<^verbatim>\<open>ExactAvgFactory::getReturnType\<close>.\<close>

definition getReturnType :: "VerticaType list \<Rightarrow> error + column list" where
  "getReturnType inputTypes =
     (if length inputTypes \<noteq> 1 then Inl WrongArgumentCount
      else let inType = hd inputTypes in
        if \<not> isNumeric inType then Inl NotNumeric
        else let p_in = getNumericPrecision inType;
                 s_in = getNumericScale inType in
          if p_in \<le>s 0 \<or> MAX_NUMERIC_PRECISION <s p_in then Inl (InvalidInputShape p_in)
          else let p_out = p_in + 5;
                   p_out = (if MAX_NUMERIC_PRECISION <s p_out then MAX_NUMERIC_PRECISION else p_out);
                   s_out = s_in + 5;
                   s_out = (if p_out <s s_out then p_out else s_out);
                   s_out = (if s_out <s 0 then 0 else s_out)
               in Inr [NumericColumn p_out s_out ''exact_avg''])"

text \<open>\<^verbatim>\<open>ExactAvgFactory::getIntermediateTypes\<close>.\<close>

definition extra_digits_for_rows :: int32 where
  "extra_digits_for_rows = 19"

definition getIntermediateTypes :: "VerticaType list \<Rightarrow> error + column list" where
  "getIntermediateTypes inputTypes =
     (if length inputTypes \<noteq> 1 then Inl WrongArgumentCount
      else let inType = hd inputTypes in
        if \<not> isNumeric inType then Inl NotNumeric
        else let p_in = getNumericPrecision inType;
                 s_in = getNumericScale inType in
          if p_in \<le>s 0 \<or> MAX_NUMERIC_PRECISION <s p_in then Inl (InvalidInputShape p_in)
          else let p_sum = p_in + extra_digits_for_rows;
                   p_sum = (if MAX_NUMERIC_PRECISION <s p_sum then MAX_NUMERIC_PRECISION else p_sum);
                   s_sum = s_in;
                   s_sum = (if p_sum <s s_sum then p_sum else s_sum);
                   s_sum = (if s_sum <s 0 then 0 else s_sum)
               in Inr [NumericColumn p_sum s_sum ''sum'', IntColumn ''cnt'',
                       IntColumn ''p_in'', IntColumn ''s_in''])"

section \<open>The aggregate: intermediate state and the four phases\<close>

text \<open>
  Modelled from the spec: the class \<^verbatim>\<open>VNumeric\<close> of the Vertica SDK (\<^verbatim>\<open>Vertica.h\<close>) is
  not part of the repository. Its values are the elements of a type \<open>'n\<close>:
  \<^verbatim>\<open>setZero\<close> writes \<open>0\<close>, \<^verbatim>\<open>accumulate\<close> is the exact addition \<open>+\<close> at the fixed
  shape of the sum (section 1 of the specification takes the host's decimal addition as a
  correct black box, so \<open>'n\<close> is any commutative monoid), a null value is \<open>None\<close>, and
  the division \<^verbatim>\<open>out.div(&sum, &cntNumeric)\<close>, with \<^verbatim>\<open>cntNumeric\<close> the row count copied
  at the shape of the sum, is a parameter \<open>vdiv\<close> of \<open>terminate\<close>.
\<close>

record 'n IntermediateAggs =
  sum_v :: 'n
  cnt :: vint
  p_in_stored :: vint
  s_in_stored :: vint

text \<open>\<^verbatim>\<open>ExactAvg::initAggregate\<close>: every column of the state is overwritten.\<close>

definition initAggregate :: "'n::zero IntermediateAggs \<Rightarrow> 'n IntermediateAggs" where
  "initAggregate aggs = aggs\<lparr>sum_v := 0, cnt := 0, p_in_stored := 0, s_in_stored := 0\<rparr>"

text \<open>
  \<^verbatim>\<open>ExactAvg::aggregate\<close>. The block reader gives the type of the input column, the
  current row and the rows that \<^verbatim>\<open>argReader.next()\<close> still yields; the \<^verbatim>\<open>do ... while\<close>
  loop visits the current row first. \<open>record_input_type\<close> is the block under
  \<^verbatim>\<open>if (p_in_stored == 0)\<close>, \<open>aggregate_row\<close> the body of the loop.
\<close>

record 'n BlockReader =
  inType :: VerticaType
  row :: "'n option"
  rest :: "'n option list"

definition record_input_type ::
  "VerticaType \<Rightarrow> 'n IntermediateAggs \<Rightarrow> error + 'n IntermediateAggs" where
  "record_input_type ty aggs =
     (if p_in_stored aggs = 0 then
        if \<not> isNumeric ty then Inl NotNumeric
        else let p_in = getNumericPrecision ty;
                 s_in = getNumericScale ty in
          if p_in \<le>s 0 \<or> MAX_NUMERIC_PRECISION <s p_in then Inl (InvalidInputShape p_in)
          else Inr (aggs\<lparr>p_in_stored := widen p_in, s_in_stored := widen s_in\<rparr>)
      else Inr aggs)"

definition aggregate_row ::
  "'n::plus option \<Rightarrow> 'n IntermediateAggs \<Rightarrow> 'n IntermediateAggs" where
  "aggregate_row input aggs =
     (case input of
        None \<Rightarrow> aggs
      | Some v \<Rightarrow> aggs\<lparr>sum_v := sum_v aggs + v, cnt := cnt aggs + 1\<rparr>)"

fun aggregate_rows ::
  "'n::plus option list \<Rightarrow> 'n IntermediateAggs \<Rightarrow> 'n IntermediateAggs" where
  "aggregate_rows [] aggs = aggs"
| "aggregate_rows (input # inputs) aggs = aggregate_rows inputs (aggregate_row input aggs)"

definition aggregate ::
  "'n::plus BlockReader \<Rightarrow> 'n IntermediateAggs \<Rightarrow> error + 'n IntermediateAggs" where
  "aggregate argReader aggs =
     (case record_input_type (inType argReader) aggs of
        Inl e \<Rightarrow> Inl e
      | Inr aggs' \<Rightarrow> Inr (aggregate_rows (row argReader # rest argReader) aggs'))"

text \<open>
  \<^verbatim>\<open>ExactAvg::combine\<close>. \<open>combine_step\<close> is the body of the \<^verbatim>\<open>do ... while\<close> loop: the
  merge of one other partial state into this one. \<open>combine\<close> runs it over the current
  partial state of \<^verbatim>\<open>aggsOther\<close> and those that \<^verbatim>\<open>aggsOther.next()\<close> still yields.
\<close>

definition combine_step ::
  "'n::plus IntermediateAggs \<Rightarrow> 'n IntermediateAggs \<Rightarrow> 'n IntermediateAggs" where
  "combine_step aggs other =
     (let mySum = sum_v aggs + sum_v other;
          myCnt = cnt aggs + cnt other;
          myPIn = (if p_in_stored aggs <s p_in_stored other then p_in_stored other
                   else p_in_stored aggs);
          mySIn = (if s_in_stored aggs <s s_in_stored other then s_in_stored other
                   else s_in_stored aggs)
      in aggs\<lparr>sum_v := mySum, cnt := myCnt, p_in_stored := myPIn, s_in_stored := mySIn\<rparr>)"

fun combine_steps ::
  "'n::plus IntermediateAggs \<Rightarrow> 'n IntermediateAggs list \<Rightarrow> 'n IntermediateAggs" where
  "combine_steps aggs [] = aggs"
| "combine_steps aggs (other # others) = combine_steps (combine_step aggs other) others"

definition combine ::
  "'n::plus IntermediateAggs \<Rightarrow> 'n IntermediateAggs \<Rightarrow> 'n IntermediateAggs list
     \<Rightarrow> 'n IntermediateAggs" where
  "combine aggs other others = combine_steps aggs (other # others)"

text \<open>
  \<^verbatim>\<open>ExactAvg::terminate\<close>. \<open>digits_loop\<close> is the loop
  \<^verbatim>\<open>while (tmp > 0) { tmp /= 10; digitsN++; }\<close> on the copy \<^verbatim>\<open>tmp\<close> of the row count.
\<close>

lemma sint_vint_div_10:
  assumes "0 <s tmp"
  shows "sint (vint_div tmp 10) = sint tmp div 10"
proof -
  have pos: "0 < sint tmp" using assms by (simp add: word_sless_alt)
  have lt: "sint tmp < 2 ^ 63" using sint_lt [of tmp] by simp
  have "sint tmp sdiv sint (10 :: vint) = sint tmp div 10"
    using pos by (simp add: signed_divide_int_def sgn_if)
  moreover have "signed_take_bit 63 (sint tmp div 10) = sint tmp div 10"
    using pos lt by (intro signed_take_bit_int_eq_self) auto
  ultimately show ?thesis
    by (simp add: vint_div_def sint_sbintrunc')
qed

function digits_loop :: "vint \<Rightarrow> int32 \<Rightarrow> int32" where
  "digits_loop tmp digitsN =
     (if 0 <s tmp then digits_loop (vint_div tmp 10) (digitsN + 1) else digitsN)"
  by pat_completeness auto
termination
proof (relation "measure (\<lambda>(tmp, digitsN). nat (sint tmp))")
  show "wf (measure (\<lambda>(tmp, digitsN). nat (sint tmp)))" by simp
next
  fix tmp :: vint and digitsN :: int32
  assume a: "0 <s tmp"
  then have "0 < sint tmp" by (simp add: word_sless_alt)
  then show "((vint_div tmp 10, digitsN + 1), (tmp, digitsN))
      \<in> measure (\<lambda>(tmp, digitsN). nat (sint tmp))"
    using sint_vint_div_10 [OF a] by simp
qed

text \<open>
  The result of \<open>terminate\<close> is what the call leaves in the output column (\<open>Inr None\<close>
  after \<^verbatim>\<open>out.setNull()\<close>, \<open>Inr (Some q)\<close> after \<^verbatim>\<open>out.div\<close>) or the error it
  reports, paired with the intermediate state after the call.
\<close>

definition terminate ::
  "('n \<Rightarrow> vint \<Rightarrow> 'n) \<Rightarrow> 'n IntermediateAggs \<Rightarrow> (error + 'n option) \<times> 'n IntermediateAggs" where
  "terminate vdiv aggs =
     (let sum = sum_v aggs;
          rowCount = cnt aggs;
          p_in_stored = p_in_stored aggs;
          s_in_stored = s_in_stored aggs
      in
        if rowCount = 0 then (Inr None, aggs)
        else if s_in_stored <s 0 then (Inl (CorruptState StoredScale s_in_stored), aggs)
        else if p_in_stored \<le>s 0 \<or> widen MAX_NUMERIC_PRECISION <s p_in_stored
          then (Inl (CorruptState StoredPrecision p_in_stored), aggs)
        else if rowCount <s 0 then (Inl (CorruptState NegativeRowCount rowCount), aggs)
        else let tmp = rowCount;
                 digitsN = digits_loop tmp 0 in
          if digitsN = 0 then (Inl (CorruptState ZeroDigitCount rowCount), aggs)
          else let p_in = narrow p_in_stored;
                   p_needed = p_in + digitsN in
            if MAX_NUMERIC_PRECISION <s p_needed
              then (Inl (PrecisionExceeded p_needed p_in digitsN rowCount MAX_NUMERIC_PRECISION),
                    aggs)
            else (Inr (Some (vdiv sum rowCount)), aggs))"

text \<open>
  The states the host can hand to \<open>terminate\<close>: a freshly initialised state, a state
  after a call of \<open>aggregate\<close> that reported no error, and the merge of two such states.
\<close>

inductive reachable :: "'n::comm_monoid_add IntermediateAggs \<Rightarrow> bool" where
  init: "reachable (initAggregate aggs)"
| aggregate: "reachable aggs \<Longrightarrow> aggregate argReader aggs = Inr aggs' \<Longrightarrow> reachable aggs'"
| combine: "reachable aggs \<Longrightarrow> reachable other \<Longrightarrow> reachable (combine_step aggs other)"

text \<open>
  The merged states of the specification: the states that the three phases build when every
  declared input type is a decimal shape of the data model, whose scale is not negative
  (section 3 of the specification: \<open>0 \<le> s \<le> p\<close>). One call of \<open>combine\<close> merges
  any number of other partial states.
\<close>

inductive merged :: "'n::comm_monoid_add IntermediateAggs \<Rightarrow> bool" where
  fresh: "merged (initAggregate aggs)"
| rows: "merged aggs \<Longrightarrow> 0 \<le> sint (getNumericScale (inType argReader))
          \<Longrightarrow> aggregate argReader aggs = Inr aggs' \<Longrightarrow> merged aggs'"
| partials: "merged aggs \<Longrightarrow> merged other \<Longrightarrow> \<forall>other' \<in> set others. merged other'
          \<Longrightarrow> merged (combine aggs other others)"

text \<open>
  The host merges the partial states of a group pairwise, in a tree of any shape:
  \<open>merge_result\<close> is the state at the root, each inner node one call of \<open>combine\<close> with
  one other state, and \<open>partials\<close> lists the partial states at the leaves.
\<close>

datatype 'n merge_tree = Partial "'n IntermediateAggs" | Merge "'n merge_tree" "'n merge_tree"

fun merge_result :: "'n::plus merge_tree \<Rightarrow> 'n IntermediateAggs" where
  "merge_result (Partial a) = a"
| "merge_result (Merge l r) = combine (merge_result l) (merge_result r) []"

fun partials :: "'n merge_tree \<Rightarrow> 'n IntermediateAggs list" where
  "partials (Partial a) = [a]"
| "partials (Merge l r) = partials l @ partials r"

section \<open>The number of decimal digits, as the specification words it\<close>

text \<open>
  \<open>decimalDigitCount n\<close> is the number of base-10 digits of \<open>n\<close>, written after the
  specification and not after the loop of the source; \<open>decimalDigitCount_iff\<close> below
  characterises it by \<open>10 ^ (d - 1) \<le> n < 10 ^ d\<close>.
\<close>

fun decimalDigitCount :: "nat \<Rightarrow> nat" where
  "decimalDigitCount n = (if n < 10 then 1 else Suc (decimalDigitCount (n div 10)))"

section \<open>Auxiliary notions for the statements\<close>

text \<open>Whether an outcome of \<open>terminate\<close> is the precision-exceeded error.\<close>

fun raises_PrecisionExceeded :: "error + 'a \<Rightarrow> bool" where
  "raises_PrecisionExceeded (Inl (PrecisionExceeded p_needed p_in digitsN rowCount p_max)) = True"
| "raises_PrecisionExceeded r = False"

text \<open>Whether an outcome of \<open>terminate\<close> is a numeric value written to the output.\<close>

fun returns_numeric :: "error + 'a option \<Rightarrow> bool" where
  "returns_numeric (Inr (Some v)) = True"
| "returns_numeric r = False"

text \<open>
  A concrete host for the closed examples: numerics as unscaled integers, the quotient
  rounded down.
\<close>

definition int_vdiv :: "int \<Rightarrow> vint \<Rightarrow> int" where
  "int_vdiv s c = s div sint c"

section \<open>Arithmetic of the machine integers\<close>

lemma sint32_add:
  fixes a b :: int32
  assumes "- 2147483648 \<le> sint a + sint b" "sint a + sint b < 2147483648"
  shows "sint (a + b) = sint a + sint b"
proof -
  have "sint (a + b) = signed_take_bit 31 (sint a + sint b)"
    by (simp add: sint_word_ariths)
  also have "\<dots> = sint a + sint b"
    using assms by (intro signed_take_bit_int_eq_self) auto
  finally show ?thesis .
qed

lemma sint_MAX: "sint MAX_NUMERIC_PRECISION = 1024"
  by (simp add: MAX_NUMERIC_PRECISION_def)

lemma sint_widen: "sint (widen x) = sint x"
  by (simp add: widen_def sint_up_scast is_up)

lemma sint_narrow:
  assumes "- 2147483648 \<le> sint x" "sint x < 2147483648"
  shows "sint (narrow x) = sint x"
proof -
  have "sint (narrow x) = signed_take_bit 31 (sint x)"
    by (simp add: narrow_def signed_scast_eq)
  also have "\<dots> = sint x"
    using assms by (intro signed_take_bit_int_eq_self) auto
  finally show ?thesis .
qed

lemma sint_of_nat_small:
  assumes "k \<le> 19"
  shows "sint (of_nat k :: int32) = int k"
proof -
  have "sint (of_nat k :: int32) = signed_take_bit 31 (int k)"
    by (simp add: signed_of_nat)
  also have "\<dots> = int k"
    using assms by (intro signed_take_bit_int_eq_self) auto
  finally show ?thesis .
qed

lemma sint_inj: "sint a = sint b \<Longrightarrow> a = b"
  by (rule signed_word_eqI)

lemma sint_smax: "sint (if a <s b then b else a) = max (sint a) (sint b)"
  by (simp add: word_sless_alt max_def)

lemma smax_commute: "(if a <s b then b else a) = (if b <s a then a else b)"
  by (rule sint_inj) (simp only: sint_smax max.commute)

lemma smax_assoc:
  "(if a <s (if b <s c then c else b) then (if b <s c then c else b) else a)
     = (if (if a <s b then b else a) <s c then c else (if a <s b then b else a))"
  by (rule sint_inj) (simp only: sint_smax max.assoc)

lemma sint_eq_0_iff: "(sint (w :: 'a::len word) = 0) = (w = 0)"
  using sint_inj [of w 0] by auto

section \<open>Decimal digits and the digit loop\<close>

declare decimalDigitCount.simps [simp del]
declare digits_loop.simps [simp del]

lemma decimalDigitCount_pos: "0 < decimalDigitCount n"
  by (subst decimalDigitCount.simps) simp

lemma decimalDigitCount_bounds:
  "0 < n \<Longrightarrow> 10 ^ (decimalDigitCount n - 1) \<le> n \<and> n < 10 ^ decimalDigitCount n"
proof (induction n rule: decimalDigitCount.induct)
  case (1 n)
  show ?case
  proof (cases "n < 10")
    case True
    with "1.prems" show ?thesis by (subst (1 2) decimalDigitCount.simps) simp
  next
    case False
    then have pos: "0 < n div 10" by simp
    from "1.IH" [OF False pos]
    have lo: "10 ^ (decimalDigitCount (n div 10) - 1) \<le> n div 10"
      and hi: "n div 10 < 10 ^ decimalDigitCount (n div 10)" by simp_all
    have eq: "decimalDigitCount n = Suc (decimalDigitCount (n div 10))"
      using False by (subst decimalDigitCount.simps) simp
    have "10 * 10 ^ (decimalDigitCount (n div 10) - 1) \<le> n"
      using lo by simp
    moreover have "10 * 10 ^ (decimalDigitCount (n div 10) - 1) = (10::nat) ^ decimalDigitCount (n div 10)"
      using decimalDigitCount_pos [of "n div 10"] by (cases "decimalDigitCount (n div 10)") simp_all
    moreover have "n < 10 * 10 ^ decimalDigitCount (n div 10)"
      using hi by simp
    ultimately show ?thesis by (simp add: eq)
  qed
qed

lemma decimalDigitCount_le: "n < 10 ^ k \<Longrightarrow> 0 < k \<Longrightarrow> decimalDigitCount n \<le> k"
proof (induction k arbitrary: n)
  case 0
  then show ?case by simp
next
  case (Suc k)
  show ?case
  proof (cases "n < 10")
    case True
    then show ?thesis by (subst decimalDigitCount.simps) simp
  next
    case False
    then have k: "0 < k" using Suc.prems by (cases k) simp_all
    have "n div 10 < 10 ^ k" using Suc.prems by simp
    from Suc.IH [OF this k] False show ?thesis
      by (subst decimalDigitCount.simps) simp
  qed
qed

lemma decimalDigitCount_unique:
  assumes "0 < d" "10 ^ (d - 1) \<le> n" "n < 10 ^ d"
  shows "decimalDigitCount n = d"
proof -
  have npos: "0 < n" using assms(2) by (metis gr0I le_zero_eq power_not_zero zero_neq_numeral)
  have le: "decimalDigitCount n \<le> d" using assms decimalDigitCount_le by simp
  have "\<not> decimalDigitCount n < d"
  proof
    assume "decimalDigitCount n < d"
    then have "decimalDigitCount n \<le> d - 1" by simp
    then have "(10::nat) ^ decimalDigitCount n \<le> 10 ^ (d - 1)"
      by (intro power_increasing) simp_all
    with decimalDigitCount_bounds [OF npos] assms(2) show False by simp
  qed
  with le show ?thesis by simp
qed

lemma decimalDigitCount_iff:
  "0 < n \<Longrightarrow> 0 < d \<Longrightarrow> (decimalDigitCount n = d) = (10 ^ (d - 1) \<le> n \<and> n < 10 ^ d)"
  using decimalDigitCount_bounds decimalDigitCount_unique by blast

lemma decimalDigitCount_vint: "decimalDigitCount (nat (sint (c :: vint))) \<le> 19"
proof -
  have "sint c < 2 ^ 63" using sint_lt [of c] by simp
  then have "nat (sint c) < 10 ^ 19" by simp
  then show ?thesis by (rule decimalDigitCount_le) simp
qed

lemma decimalDigitCount_max_vint: "decimalDigitCount 9223372036854775807 = 19"
  by (simp add: decimalDigitCount.simps)

lemma digits_loop_eq:
  "0 <s tmp \<Longrightarrow> digits_loop tmp digitsN = digitsN + of_nat (decimalDigitCount (nat (sint tmp)))"
proof (induction tmp digitsN rule: digits_loop.induct)
  case (1 tmp digitsN)
  then have pos: "0 < sint tmp" by (simp add: word_sless_alt)
  have d: "sint (vint_div tmp 10) = sint tmp div 10"
    using "1.prems" by (rule sint_vint_div_10)
  have unfold: "digits_loop tmp digitsN = digits_loop (vint_div tmp 10) (digitsN + 1)"
    using "1.prems" by (subst digits_loop.simps) simp
  show ?case
  proof (cases "sint tmp < 10")
    case True
    then have "\<not> 0 <s vint_div tmp 10" using pos d by (simp add: word_sless_alt)
    then have "digits_loop (vint_div tmp 10) (digitsN + 1) = digitsN + 1"
      by (subst digits_loop.simps) simp
    moreover have "nat (sint tmp) < 10" using True pos by simp
    then have "decimalDigitCount (nat (sint tmp)) = 1"
      by (subst decimalDigitCount.simps) simp
    ultimately show ?thesis using unfold by simp
  next
    case False
    then have p': "0 <s vint_div tmp 10" using d by (simp add: word_sless_alt)
    have "digits_loop (vint_div tmp 10) (digitsN + 1)
        = digitsN + 1 + of_nat (decimalDigitCount (nat (sint (vint_div tmp 10))))"
      using "1.IH" [OF "1.prems" p'] .
    moreover have "nat (sint (vint_div tmp 10)) = nat (sint tmp) div 10"
      using d pos by (simp add: nat_div_distrib)
    moreover have "\<not> nat (sint tmp) < 10" using False pos by simp
    then have "decimalDigitCount (nat (sint tmp)) = Suc (decimalDigitCount (nat (sint tmp) div 10))"
      by (subst decimalDigitCount.simps) simp
    ultimately show ?thesis using unfold by simp
  qed
qed

section \<open>The factory\<close>

text \<open>
  C3. For an input NUMERIC(p_in, s_in) with \<open>1 \<le> p_in \<le> 1024\<close> and
  \<open>0 \<le> s_in \<le> p_in\<close>, \<open>getReturnType\<close> declares the output column
  NUMERIC(p_out, s_out) with \<open>p_out = min 1024 (p_in + 5)\<close> and
  \<open>s_out = min p_out (s_in + 5)\<close>.
\<close>

theorem getReturnType_shape:
  assumes "isNumeric ty"
    and "1 \<le> sint (getNumericPrecision ty)" and "sint (getNumericPrecision ty) \<le> 1024"
    and "0 \<le> sint (getNumericScale ty)"
    and "sint (getNumericScale ty) \<le> sint (getNumericPrecision ty)"
  shows "\<exists>p_out s_out.
       getReturnType [ty] = Inr [NumericColumn p_out s_out ''exact_avg'']
     \<and> sint p_out = min 1024 (sint (getNumericPrecision ty) + 5)
     \<and> sint s_out = min (sint p_out) (sint (getNumericScale ty) + 5)"
proof -
  have p5: "sint (getNumericPrecision ty + 5) = sint (getNumericPrecision ty) + 5"
    using assms sint32_add [of "getNumericPrecision ty" 5] by simp
  have s5: "sint (getNumericScale ty + 5) = sint (getNumericScale ty) + 5"
    using assms sint32_add [of "getNumericScale ty" 5] by simp
  show ?thesis
    using assms p5 s5
    by (simp add: getReturnType_def Let_def word_sle_eq word_sless_alt sint_MAX)
qed

theorem getReturnType_shape_witness:
  "isNumeric \<lparr>isNumeric = True, getNumericPrecision = 1022, getNumericScale = 2\<rparr>
   \<and> (\<exists>p_out s_out.
       getReturnType [\<lparr>isNumeric = True, getNumericPrecision = 1022, getNumericScale = 2\<rparr>]
         = Inr [NumericColumn p_out s_out ''exact_avg'']
     \<and> sint p_out = 1024 \<and> sint s_out = 7)"
  using getReturnType_shape
    [of "\<lparr>isNumeric = True, getNumericPrecision = 1022, getNumericScale = 2\<rparr>"]
  by auto

text \<open>
  C2. For an input NUMERIC(p_in, s_in) with \<open>1 \<le> p_in \<le> 1024\<close> and
  \<open>0 \<le> s_in \<le> p_in\<close>, \<open>getIntermediateTypes\<close> declares the sum column
  NUMERIC(p_sum, s_sum) with \<open>p_sum = min 1024 (p_in + 19)\<close> and \<open>s_sum\<close> the clamp of
  \<open>s_in\<close> to \<open>[0, p_sum]\<close>, followed by the three integer columns. The guard-digit
  constant is 19, and no row count of the 64-bit counter has more than 19 decimal digits;
  the largest one, \<open>2 ^ 63 - 1\<close>, has exactly 19.
\<close>

theorem getIntermediateTypes_shape:
  assumes "isNumeric ty"
    and "1 \<le> sint (getNumericPrecision ty)" and "sint (getNumericPrecision ty) \<le> 1024"
    and "0 \<le> sint (getNumericScale ty)"
    and "sint (getNumericScale ty) \<le> sint (getNumericPrecision ty)"
  shows "(\<exists>p_sum s_sum.
       getIntermediateTypes [ty]
         = Inr [NumericColumn p_sum s_sum ''sum'', IntColumn ''cnt'',
                IntColumn ''p_in'', IntColumn ''s_in'']
     \<and> sint p_sum = min 1024 (sint (getNumericPrecision ty) + 19)
     \<and> sint s_sum = max 0 (min (sint p_sum) (sint (getNumericScale ty))))
   \<and> sint extra_digits_for_rows = 19
   \<and> int (decimalDigitCount (nat (sint (rowCount :: vint)))) \<le> sint extra_digits_for_rows
   \<and> int (decimalDigitCount (nat (sint (word_of_int (2 ^ 63 - 1) :: vint))))
       = sint extra_digits_for_rows"
proof -
  have p19: "sint (getNumericPrecision ty + 19) = sint (getNumericPrecision ty) + 19"
    using assms sint32_add [of "getNumericPrecision ty" 19] by simp
  have shape: "\<exists>p_sum s_sum.
       getIntermediateTypes [ty]
         = Inr [NumericColumn p_sum s_sum ''sum'', IntColumn ''cnt'',
                IntColumn ''p_in'', IntColumn ''s_in'']
     \<and> sint p_sum = min 1024 (sint (getNumericPrecision ty) + 19)
     \<and> sint s_sum = max 0 (min (sint p_sum) (sint (getNumericScale ty)))"
    using assms p19
    by (simp add: getIntermediateTypes_def extra_digits_for_rows_def Let_def
        word_sle_eq word_sless_alt sint_MAX)
  have r: "sint extra_digits_for_rows = 19"
    by (simp add: extra_digits_for_rows_def)
  have all: "int (decimalDigitCount (nat (sint rowCount))) \<le> sint extra_digits_for_rows"
    using decimalDigitCount_vint [of rowCount] r by simp
  have "sint (word_of_int (2 ^ 63 - 1) :: vint) = 9223372036854775807"
    by simp
  then have top: "int (decimalDigitCount (nat (sint (word_of_int (2 ^ 63 - 1) :: vint))))
       = sint extra_digits_for_rows"
    using decimalDigitCount_max_vint r by simp
  from shape r all top show ?thesis by blast
qed

theorem getIntermediateTypes_shape_witness:
  "isNumeric \<lparr>isNumeric = True, getNumericPrecision = 75, getNumericScale = 2\<rparr>
   \<and> (\<exists>p_sum s_sum.
       getIntermediateTypes [\<lparr>isNumeric = True, getNumericPrecision = 75, getNumericScale = 2\<rparr>]
         = Inr [NumericColumn p_sum s_sum ''sum'', IntColumn ''cnt'',
                IntColumn ''p_in'', IntColumn ''s_in'']
     \<and> sint p_sum = 94 \<and> sint s_sum = 2)"
  using getIntermediateTypes_shape
    [of "\<lparr>isNumeric = True, getNumericPrecision = 75, getNumericScale = 2\<rparr>" 5]
  by auto




section \<open>Accumulation\<close>

lemma aggregate_rows_null:
  "\<forall>v \<in> set inputs. v = None \<Longrightarrow> aggregate_rows inputs aggs = aggs"
  by (induction inputs arbitrary: aggs) (simp_all add: aggregate_row_def)

lemma record_input_type_frame:
  "record_input_type ty aggs = Inr aggs' \<Longrightarrow> sum_v aggs' = sum_v aggs \<and> cnt aggs' = cnt aggs"
  by (auto simp: record_input_type_def Let_def split: if_splits)

text \<open>
  Null rows are skipped wherever they stand in a block: the rows of a block act as the
  non-null ones among them do.
\<close>

lemma aggregate_rows_skip_nulls:
  "aggregate_rows inputs aggs = aggregate_rows (filter (\<lambda>v. v \<noteq> None) inputs) aggs"
  by (induction inputs arbitrary: aggs) (simp_all add: aggregate_row_def)

text \<open>
  C7. A null row leaves the state as it is. A call of \<open>aggregate\<close> on a block whose rows
  are all null leaves the sum and the count as they were, whatever the state; the only
  other outcome is the error of the first call's check of the input type, raised before
  any row is read.
\<close>

theorem aggregate_null_rows:
  assumes "row argReader = None" and "\<forall>v \<in> set (rest argReader). v = None"
  shows "aggregate_row None aggs = aggs
     \<and> (case aggregate argReader aggs of
           Inr aggs' \<Rightarrow> sum_v aggs' = sum_v aggs \<and> cnt aggs' = cnt aggs
         | Inl e \<Rightarrow> p_in_stored aggs = 0 \<and>
             (e = NotNumeric \<or> e = InvalidInputShape (getNumericPrecision (inType argReader))))"
proof (cases "record_input_type (inType argReader) aggs")
  case (Inl e)
  then show ?thesis
    by (auto simp: aggregate_def aggregate_row_def record_input_type_def Let_def
        split: if_splits)
next
  case (Inr a1)
  have "aggregate_rows (row argReader # rest argReader) a1 = a1"
    using assms by (intro aggregate_rows_null) simp
  with Inr record_input_type_frame [OF Inr] show ?thesis
    by (simp add: aggregate_def aggregate_row_def)
qed

theorem aggregate_null_rows_witness:
  "row \<lparr>inType = \<lparr>isNumeric = True, getNumericPrecision = 75, getNumericScale = 2\<rparr>,
         row = None, rest = [None, None]\<rparr> = (None :: int option)
   \<and> aggregate \<lparr>inType = \<lparr>isNumeric = True, getNumericPrecision = 75, getNumericScale = 2\<rparr>,
         row = None, rest = [None, None]\<rparr>
        \<lparr>sum_v = 12 :: int, cnt = 3, p_in_stored = 75, s_in_stored = 2\<rparr>
       = Inr \<lparr>sum_v = 12, cnt = 3, p_in_stored = 75, s_in_stored = 2\<rparr>
   \<and> aggregate \<lparr>inType = \<lparr>isNumeric = True, getNumericPrecision = 75, getNumericScale = 2\<rparr>,
         row = None, rest = [None, None]\<rparr>
        \<lparr>sum_v = 0 :: int, cnt = 0, p_in_stored = 0, s_in_stored = 0\<rparr>
       = Inr \<lparr>sum_v = 0, cnt = 0, p_in_stored = 75, s_in_stored = 2\<rparr>"
  using aggregate_null_rows
    [of "\<lparr>inType = \<lparr>isNumeric = True, getNumericPrecision = 75, getNumericScale = 2\<rparr>,
          row = None, rest = [None, None]\<rparr>"
        "\<lparr>sum_v = 12 :: int, cnt = 3, p_in_stored = 75, s_in_stored = 2\<rparr>"]
  by (simp add: aggregate_def record_input_type_def aggregate_row_def Let_def widen_def
      MAX_NUMERIC_PRECISION_def word_sle_eq word_sless_alt)

section \<open>Merging\<close>

lemma combine_step_commute:
  fixes a b :: "'n::ab_semigroup_add IntermediateAggs"
  shows "combine_step a b = combine_step b a"
  by (simp add: combine_step_def Let_def add.commute smax_commute [of "p_in_stored a"]
      smax_commute [of "s_in_stored a"])

lemma combine_step_assoc:
  fixes a b c :: "'n::ab_semigroup_add IntermediateAggs"
  shows "combine_step a (combine_step b c) = combine_step (combine_step a b) c"
  by (simp add: combine_step_def Let_def add.assoc
      smax_assoc [of "p_in_stored a" "p_in_stored b" "p_in_stored c"]
      smax_assoc [of "s_in_stored a" "s_in_stored b" "s_in_stored c"])

text \<open>
  The freshly initialised state is neutral for the merge of a state whose stored
  precision and scale are not negative.
\<close>

lemma combine_step_init:
  fixes a :: "'n::comm_monoid_add IntermediateAggs"
  assumes "0 \<le> sint (p_in_stored a)" and "0 \<le> sint (s_in_stored a)"
  shows "combine_step a (initAggregate z) = a"
  using assms by (simp add: combine_step_def initAggregate_def Let_def word_sless_alt)

lemma combine_steps_fold:
  "combine_steps aggs others = fold (\<lambda>other aggs. combine_step aggs other) others aggs"
  by (induction others arbitrary: aggs) simp_all

lemma combine_step_right_commute:
  fixes a :: "'n::ab_semigroup_add IntermediateAggs"
  shows "combine_step (combine_step a x) y = combine_step (combine_step a y) x"
proof -
  have "combine_step (combine_step a x) y = combine_step a (combine_step x y)"
    by (simp only: combine_step_assoc)
  also have "\<dots> = combine_step a (combine_step y x)"
    by (simp only: combine_step_commute [of x y])
  also have "\<dots> = combine_step (combine_step a y) x"
    by (simp only: combine_step_assoc)
  finally show ?thesis .
qed

text \<open>
  One call of \<open>combine\<close> gives the same state for every order in which the host
  presents the other partial states.
\<close>

lemma combine_order_irrelevant:
  fixes aggs :: "'n::ab_semigroup_add IntermediateAggs"
  assumes "mset (other # others) = mset (other' # others')"
  shows "combine aggs other others = combine aggs other' others'"
proof -
  have "fold (\<lambda>other aggs. combine_step aggs other) (other # others)
      = fold (\<lambda>other aggs. combine_step aggs other) (other' # others')"
    using assms by (intro fold_multiset_equiv) (auto simp: fun_eq_iff combine_step_right_commute)
  then show ?thesis
    by (simp only: combine_def combine_steps_fold)
qed

lemma combine_single: "combine a b [] = combine_step a b"
  by (simp add: combine_def)

lemma combine_more: "combine a b (c # cs) = combine (combine a b []) c cs"
  by (simp add: combine_def)

lemma combine_step_fields:
  "sum_v (combine_step a b) = sum_v a + sum_v b"
  "cnt (combine_step a b) = cnt a + cnt b"
  "sint (p_in_stored (combine_step a b)) = max (sint (p_in_stored a)) (sint (p_in_stored b))"
  "sint (s_in_stored (combine_step a b)) = max (sint (s_in_stored a)) (sint (s_in_stored b))"
  by (simp_all add: combine_step_def Let_def sint_smax)

lemma combine_fields:
  "sum_v (combine a b []) = sum_v a + sum_v b"
  "cnt (combine a b []) = cnt a + cnt b"
  "sint (p_in_stored (combine a b [])) = max (sint (p_in_stored a)) (sint (p_in_stored b))"
  "sint (s_in_stored (combine a b [])) = max (sint (s_in_stored a)) (sint (s_in_stored b))"
  by (simp_all add: combine_single combine_step_fields)

lemma partials_not_Nil: "partials t \<noteq> []"
  by (induction t) simp_all

lemma merge_result_sum:
  fixes t :: "'n::comm_monoid_add merge_tree"
  shows "sum_v (merge_result t) = sum_list (map sum_v (partials t))"
  by (induction t) (simp_all add: combine_fields)

lemma merge_result_cnt:
  fixes t :: "'n::comm_monoid_add merge_tree"
  shows "cnt (merge_result t) = sum_list (map cnt (partials t))"
  by (induction t) (simp_all add: combine_fields)

lemma merge_result_precision:
  "sint (p_in_stored (merge_result t)) = Max ((\<lambda>a. sint (p_in_stored a)) ` set (partials t))"
proof (induction t)
  case (Partial a)
  show ?case by simp
next
  case (Merge l r)
  have "Max ((\<lambda>a. sint (p_in_stored a)) ` set (partials l)
          \<union> (\<lambda>a. sint (p_in_stored a)) ` set (partials r))
      = max (Max ((\<lambda>a. sint (p_in_stored a)) ` set (partials l)))
            (Max ((\<lambda>a. sint (p_in_stored a)) ` set (partials r)))"
    using partials_not_Nil by (intro Max_Un) auto
  then show ?case by (simp add: combine_fields Merge.IH image_Un)
qed

lemma merge_result_scale:
  "sint (s_in_stored (merge_result t)) = Max ((\<lambda>a. sint (s_in_stored a)) ` set (partials t))"
proof (induction t)
  case (Partial a)
  show ?case by simp
next
  case (Merge l r)
  have "Max ((\<lambda>a. sint (s_in_stored a)) ` set (partials l)
          \<union> (\<lambda>a. sint (s_in_stored a)) ` set (partials r))
      = max (Max ((\<lambda>a. sint (s_in_stored a)) ` set (partials l)))
            (Max ((\<lambda>a. sint (s_in_stored a)) ` set (partials r)))"
    using partials_not_Nil by (intro Max_Un) auto
  then show ?case by (simp add: combine_fields Merge.IH image_Un)
qed

lemma sum_list_map_mset:
  fixes f :: "'a \<Rightarrow> 'b::comm_monoid_add"
  assumes "mset xs = mset ys"
  shows "sum_list (map f xs) = sum_list (map f ys)"
proof -
  have "sum_list (map f xs) = sum_mset (image_mset f (mset xs))"
    by (simp flip: sum_mset_sum_list)
  also have "\<dots> = sum_mset (image_mset f (mset ys))" by (simp only: assms)
  also have "\<dots> = sum_list (map f ys)" by (simp flip: sum_mset_sum_list)
  finally show ?thesis .
qed

lemma merge_result_order_irrelevant:
  fixes t t' :: "'n::comm_monoid_add merge_tree"
  assumes "mset (partials t) = mset (partials t')"
  shows "merge_result t = merge_result t'"
proof (rule IntermediateAggs.equality)
  have sets: "set (partials t) = set (partials t')"
    using assms by (rule mset_eq_setD)
  show "sum_v (merge_result t) = sum_v (merge_result t')"
    by (simp only: merge_result_sum sum_list_map_mset [OF assms])
  show "cnt (merge_result t) = cnt (merge_result t')"
    by (simp only: merge_result_cnt sum_list_map_mset [OF assms])
  show "p_in_stored (merge_result t) = p_in_stored (merge_result t')"
    by (rule sint_inj) (simp only: merge_result_precision sets)
  show "s_in_stored (merge_result t) = s_in_stored (merge_result t')"
    by (rule sint_inj) (simp only: merge_result_scale sets)
  show "IntermediateAggs.more (merge_result t) = IntermediateAggs.more (merge_result t')"
    by simp
qed

lemma combine_init:
  fixes a :: "'n::comm_monoid_add IntermediateAggs"
  assumes "0 \<le> sint (p_in_stored a)" and "0 \<le> sint (s_in_stored a)"
  shows "combine a (initAggregate z) [] = a" and "combine (initAggregate z) a [] = a"
proof -
  show "combine a (initAggregate z) [] = a"
    using assms by (simp add: combine_single combine_step_init)
  then show "combine (initAggregate z) a [] = a"
    by (simp only: combine_single combine_step_commute [of "initAggregate z" a])
qed

text \<open>
  C6. \<open>combine\<close> with one other partial state is the merge. It is associative and
  commutative on all states; it adds the sums, adds the counts and takes the (signed)
  maximum of the stored precisions and of the stored scales; a call with several other
  states is the sequence of the single merges. The fresh state is neutral, on both sides,
  for every state whose stored precision and scale are not negative, as they are in every
  merged state (\<open>merged_shape\<close>). Hence two merge trees over the same partial states,
  whatever their shapes and the order of their leaves, end in the same state, and
  \<open>terminate\<close> gives the same outcome on both; so it does on the three merge orders of
  three partial states.
\<close>

theorem combine_commutative_monoid:
  fixes a b c :: "'n::comm_monoid_add IntermediateAggs"
  shows "combine a (combine b c []) [] = combine (combine a b []) c []
     \<and> combine a b [] = combine b a []
     \<and> sum_v (combine a b []) = sum_v a + sum_v b
     \<and> cnt (combine a b []) = cnt a + cnt b
     \<and> sint (p_in_stored (combine a b [])) = max (sint (p_in_stored a)) (sint (p_in_stored b))
     \<and> sint (s_in_stored (combine a b [])) = max (sint (s_in_stored a)) (sint (s_in_stored b))
     \<and> combine a b (c # cs) = combine (combine a b []) c cs
     \<and> (0 \<le> sint (p_in_stored a) \<and> 0 \<le> sint (s_in_stored a)
          \<longrightarrow> combine a (initAggregate z) [] = a \<and> combine (initAggregate z) a [] = a)
     \<and> (mset (partials t) = mset (partials t')
          \<longrightarrow> merge_result t = merge_result t'
            \<and> terminate vdiv (merge_result t) = terminate vdiv (merge_result t'))
     \<and> terminate vdiv (combine (combine a b []) c [])
         = terminate vdiv (combine a (combine b c []) [])
     \<and> terminate vdiv (combine a (combine b c []) [])
         = terminate vdiv (combine (combine b a []) c [])"
proof -
  have assoc: "combine a (combine b c []) [] = combine (combine a b []) c []"
    by (simp only: combine_single combine_step_assoc)
  have comm: "combine a b [] = combine b a []"
    by (simp only: combine_single combine_step_commute [of a b])
  have parts: "sum_v (combine a b []) = sum_v a + sum_v b
     \<and> cnt (combine a b []) = cnt a + cnt b
     \<and> sint (p_in_stored (combine a b [])) = max (sint (p_in_stored a)) (sint (p_in_stored b))
     \<and> sint (s_in_stored (combine a b [])) = max (sint (s_in_stored a)) (sint (s_in_stored b))"
    by (simp only: combine_fields)
  have more: "combine a b (c # cs) = combine (combine a b []) c cs"
    by (rule combine_more)
  have neutral: "0 \<le> sint (p_in_stored a) \<and> 0 \<le> sint (s_in_stored a)
          \<longrightarrow> combine a (initAggregate z) [] = a \<and> combine (initAggregate z) a [] = a"
    using combine_init [of a z] by blast
  have tree: "mset (partials t) = mset (partials t')
          \<longrightarrow> merge_result t = merge_result t'
            \<and> terminate vdiv (merge_result t) = terminate vdiv (merge_result t')"
    using merge_result_order_irrelevant [of t t'] by auto
  have t1: "terminate vdiv (combine (combine a b []) c [])
         = terminate vdiv (combine a (combine b c []) [])"
    by (simp only: assoc)
  have t2: "terminate vdiv (combine a (combine b c []) [])
         = terminate vdiv (combine (combine b a []) c [])"
    by (simp only: assoc comm [symmetric])
  from assoc comm parts more neutral tree t1 t2 show ?thesis by blast
qed

theorem combine_commutative_monoid_witness:
  "combine \<lparr>sum_v = 7 :: int, cnt = 1, p_in_stored = 75, s_in_stored = 2\<rparr>
       (initAggregate \<lparr>sum_v = 7, cnt = 1, p_in_stored = 75, s_in_stored = 2\<rparr>) []
     = \<lparr>sum_v = 7, cnt = 1, p_in_stored = 75, s_in_stored = 2\<rparr>
   \<and> merge_result
       (Merge (Partial \<lparr>sum_v = 7 :: int, cnt = 1, p_in_stored = 75, s_in_stored = 2\<rparr>)
          (Merge (Partial \<lparr>sum_v = 5, cnt = 2, p_in_stored = 75, s_in_stored = 2\<rparr>)
             (Partial \<lparr>sum_v = 0, cnt = 0, p_in_stored = 0, s_in_stored = 0\<rparr>)))
     = \<lparr>sum_v = 12, cnt = 3, p_in_stored = 75, s_in_stored = 2\<rparr>
   \<and> merge_result
       (Merge (Merge (Partial \<lparr>sum_v = 0 :: int, cnt = 0, p_in_stored = 0, s_in_stored = 0\<rparr>)
                 (Partial \<lparr>sum_v = 7, cnt = 1, p_in_stored = 75, s_in_stored = 2\<rparr>))
          (Partial \<lparr>sum_v = 5, cnt = 2, p_in_stored = 75, s_in_stored = 2\<rparr>))
     = \<lparr>sum_v = 12, cnt = 3, p_in_stored = 75, s_in_stored = 2\<rparr>"
  using combine_commutative_monoid
    [where a = "\<lparr>sum_v = 7 :: int, cnt = 1, p_in_stored = 75, s_in_stored = 2\<rparr>"
       and z = "\<lparr>sum_v = 7 :: int, cnt = 1, p_in_stored = 75, s_in_stored = 2\<rparr>"
       and t = "Merge (Partial \<lparr>sum_v = 7 :: int, cnt = 1, p_in_stored = 75, s_in_stored = 2\<rparr>)
          (Merge (Partial \<lparr>sum_v = 5, cnt = 2, p_in_stored = 75, s_in_stored = 2\<rparr>)
             (Partial \<lparr>sum_v = 0, cnt = 0, p_in_stored = 0, s_in_stored = 0\<rparr>))"
       and t' = "Merge (Merge (Partial \<lparr>sum_v = 0 :: int, cnt = 0, p_in_stored = 0, s_in_stored = 0\<rparr>)
                 (Partial \<lparr>sum_v = 7, cnt = 1, p_in_stored = 75, s_in_stored = 2\<rparr>))
          (Partial \<lparr>sum_v = 5, cnt = 2, p_in_stored = 75, s_in_stored = 2\<rparr>)"]
  by (simp add: combine_def combine_step_def initAggregate_def Let_def word_sless_alt)

section \<open>Finalisation\<close>

lemma digits_loop_sint:
  assumes "0 <s rowCount"
  shows "sint (digits_loop rowCount 0) = int (decimalDigitCount (nat (sint rowCount)))"
  using assms digits_loop_eq [OF assms, of 0] sint_of_nat_small [OF decimalDigitCount_vint [of rowCount]]
  by simp

lemma terminate_count_pos:
  assumes c: "0 <s cnt aggs"
    and p1: "1 \<le> sint (p_in_stored aggs)" and p2: "sint (p_in_stored aggs) \<le> 1024"
    and s: "0 \<le> sint (s_in_stored aggs)"
  shows "fst (terminate vdiv aggs) =
     (if 1024 < sint (p_in_stored aggs) + int (decimalDigitCount (nat (sint (cnt aggs))))
      then Inl (PrecisionExceeded (narrow (p_in_stored aggs) + digits_loop (cnt aggs) 0)
                  (narrow (p_in_stored aggs)) (digits_loop (cnt aggs) 0) (cnt aggs)
                  MAX_NUMERIC_PRECISION)
      else Inr (Some (vdiv (sum_v aggs) (cnt aggs))))"
proof -
  let ?k = "decimalDigitCount (nat (sint (cnt aggs)))"
  have cpos: "0 < sint (cnt aggs)" using c by (simp add: word_sless_alt)
  then have c0: "cnt aggs \<noteq> 0" by auto
  have cneg: "\<not> cnt aggs <s 0" using cpos by (simp add: word_sless_alt)
  have sneg: "\<not> s_in_stored aggs <s 0" using s by (simp add: word_sless_alt)
  have pok: "\<not> (p_in_stored aggs \<le>s 0 \<or> widen MAX_NUMERIC_PRECISION <s p_in_stored aggs)"
    using p1 p2 by (simp add: word_sle_eq word_sless_alt sint_widen sint_MAX)
  have d: "sint (digits_loop (cnt aggs) 0) = int ?k" using c by (rule digits_loop_sint)
  have k19: "?k \<le> 19" by (rule decimalDigitCount_vint)
  have kpos: "0 < ?k" by (rule decimalDigitCount_pos)
  have d0: "digits_loop (cnt aggs) 0 \<noteq> 0"
  proof
    assume "digits_loop (cnt aggs) 0 = 0"
    then have "sint (digits_loop (cnt aggs) 0) = 0" by simp
    with d kpos show False by simp
  qed
  have n: "sint (narrow (p_in_stored aggs)) = sint (p_in_stored aggs)"
    using p1 p2 by (intro sint_narrow) auto
  have need: "sint (narrow (p_in_stored aggs) + digits_loop (cnt aggs) 0)
      = sint (p_in_stored aggs) + int ?k"
    using sint32_add [of "narrow (p_in_stored aggs)" "digits_loop (cnt aggs) 0"] n d p1 p2 k19
    by simp
  have test: "(MAX_NUMERIC_PRECISION <s narrow (p_in_stored aggs) + digits_loop (cnt aggs) 0)
      = (1024 < sint (p_in_stored aggs) + int ?k)"
    by (simp add: word_sless_alt sint_MAX need)
  show ?thesis
    using c0 cneg sneg pok d0 test
    by (simp add: terminate_def Let_def)
qed

text \<open>
  C5. \<open>terminate\<close> writes null if and only if the count is 0, whatever the other fields
  of the state are.
\<close>

theorem terminate_null_iff:
  "(fst (terminate vdiv aggs) = Inr None) = (cnt aggs = 0)"
  by (simp add: terminate_def Let_def)

text \<open>
  C8. The intermediate state after \<open>terminate\<close> is the state before it, on every path:
  null, quotient or error.
\<close>

theorem terminate_frame:
  "snd (terminate vdiv aggs) = aggs
   \<and> sum_v (snd (terminate vdiv aggs)) = sum_v aggs
   \<and> cnt (snd (terminate vdiv aggs)) = cnt aggs
   \<and> p_in_stored (snd (terminate vdiv aggs)) = p_in_stored aggs
   \<and> s_in_stored (snd (terminate vdiv aggs)) = s_in_stored aggs"
proof -
  have "snd (terminate vdiv aggs) = aggs"
    by (simp add: terminate_def Let_def)
  then show ?thesis by simp
qed

text \<open>
  C10. On a freshly initialised state the count and the stored precision are both 0, and
  \<open>terminate\<close> writes null: the test of the count comes first. The same stored
  precision 0 under a count of 1 is reported as corrupt.
\<close>

theorem terminate_fresh:
  "cnt (initAggregate aggs) = 0
   \<and> p_in_stored (initAggregate aggs) = 0
   \<and> terminate vdiv (initAggregate aggs) = (Inr None, initAggregate aggs)
   \<and> fst (terminate vdiv ((initAggregate aggs)\<lparr>cnt := 1\<rparr>))
       = Inl (CorruptState StoredPrecision 0)"
  by (simp add: terminate_def initAggregate_def Let_def word_sle_eq word_sless_alt)

section \<open>The invariant of the reachable states\<close>

lemma aggregate_rows_shape:
  "p_in_stored (aggregate_rows inputs aggs) = p_in_stored aggs
   \<and> s_in_stored (aggregate_rows inputs aggs) = s_in_stored aggs"
  by (induction inputs arbitrary: aggs) (simp_all add: aggregate_row_def split: option.splits)

lemma record_input_type_precision:
  assumes "record_input_type ty aggs = Inr aggs'"
    and "0 \<le> sint (p_in_stored aggs)" "sint (p_in_stored aggs) \<le> 1024"
  shows "1 \<le> sint (p_in_stored aggs') \<and> sint (p_in_stored aggs') \<le> 1024"
proof (cases "p_in_stored aggs = 0")
  case True
  with assms(1) show ?thesis
    by (auto simp: record_input_type_def Let_def sint_widen word_sle_eq word_sless_alt sint_MAX
        split: if_splits)
next
  case False
  then have "aggs' = aggs" using assms(1) by (simp add: record_input_type_def)
  moreover have "sint (p_in_stored aggs) \<noteq> 0" using False by (simp add: sint_eq_0_iff)
  ultimately show ?thesis using assms(2,3) by simp
qed

lemma reachable_invariant:
  "reachable aggs \<Longrightarrow>
     0 \<le> sint (p_in_stored aggs) \<and> sint (p_in_stored aggs) \<le> 1024
     \<and> (p_in_stored aggs = 0 \<longrightarrow> cnt aggs = 0)"
proof (induction rule: reachable.induct)
  case (init aggs)
  show ?case by (simp add: initAggregate_def)
next
  case (aggregate aggs argReader aggs')
  from aggregate.hyps(2) obtain a1 where
    r: "record_input_type (inType argReader) aggs = Inr a1"
    and a': "aggs' = aggregate_rows (row argReader # rest argReader) a1"
    by (auto simp: aggregate_def split: sum.splits)
  from record_input_type_precision [OF r] aggregate.IH
  have "1 \<le> sint (p_in_stored a1) \<and> sint (p_in_stored a1) \<le> 1024" by simp
  moreover have "p_in_stored aggs' = p_in_stored a1"
    unfolding a' using aggregate_rows_shape [of "row argReader # rest argReader" a1] by blast
  ultimately show ?case by auto
next
  case (combine aggs other)
  have p: "sint (p_in_stored (combine_step aggs other))
      = max (sint (p_in_stored aggs)) (sint (p_in_stored other))"
    by (simp add: combine_step_def Let_def sint_smax)
  have c: "cnt (combine_step aggs other) = cnt aggs + cnt other"
    by (simp add: combine_step_def Let_def)
  have "cnt (combine_step aggs other) = 0" if z: "p_in_stored (combine_step aggs other) = 0"
  proof -
    from z p have "max (sint (p_in_stored aggs)) (sint (p_in_stored other)) = 0" by simp
    with combine.IH have "sint (p_in_stored aggs) = 0 \<and> sint (p_in_stored other) = 0"
      by (simp add: max_def split: if_splits)
    then have "p_in_stored aggs = 0 \<and> p_in_stored other = 0" by (simp add: sint_eq_0_iff)
    with combine.IH c show ?thesis by simp
  qed
  with p combine.IH show ?case by auto
qed

text \<open>
  C9. In every reachable state the stored precision is 0 or lies in \<open>[1, 1024]\<close>, a
  count above 0 comes with a stored precision of at least 1, and \<open>terminate\<close> never
  reports a corrupt stored precision (in particular not when the count is above 0).
\<close>

theorem reachable_precision_invariant:
  assumes "reachable aggs"
  shows "(p_in_stored aggs = 0 \<or> (1 \<le> sint (p_in_stored aggs) \<and> sint (p_in_stored aggs) \<le> 1024))
     \<and> (0 <s cnt aggs \<longrightarrow> 1 \<le> sint (p_in_stored aggs))
     \<and> fst (terminate vdiv aggs) \<noteq> Inl (CorruptState StoredPrecision v)"
proof -
  from reachable_invariant [OF assms]
  have lo: "0 \<le> sint (p_in_stored aggs)" and hi: "sint (p_in_stored aggs) \<le> 1024"
    and z: "p_in_stored aggs = 0 \<longrightarrow> cnt aggs = 0" by simp_all
  have nz: "1 \<le> sint (p_in_stored aggs)" if "cnt aggs \<noteq> 0"
  proof -
    from that z have "sint (p_in_stored aggs) \<noteq> 0" by (auto simp: sint_eq_0_iff)
    with lo show ?thesis by simp
  qed
  have a: "p_in_stored aggs = 0 \<or> (1 \<le> sint (p_in_stored aggs) \<and> sint (p_in_stored aggs) \<le> 1024)"
  proof (cases "p_in_stored aggs = 0")
    case True
    then show ?thesis by simp
  next
    case False
    then have "sint (p_in_stored aggs) \<noteq> 0" by (simp add: sint_eq_0_iff)
    with lo hi show ?thesis by simp
  qed
  have b: "0 <s cnt aggs \<longrightarrow> 1 \<le> sint (p_in_stored aggs)"
  proof
    assume "0 <s cnt aggs"
    then have "sint (cnt aggs) \<noteq> 0" by (simp add: word_sless_alt)
    then have "cnt aggs \<noteq> 0" by (simp add: sint_eq_0_iff)
    then show "1 \<le> sint (p_in_stored aggs)" by (rule nz)
  qed
  have ok: "\<not> (p_in_stored aggs \<le>s 0 \<or> widen MAX_NUMERIC_PRECISION <s p_in_stored aggs)"
    if "cnt aggs \<noteq> 0"
    using nz [OF that] hi by (simp add: word_sle_eq word_sless_alt sint_widen sint_MAX)
  have c: "fst (terminate vdiv aggs) \<noteq> Inl (CorruptState StoredPrecision v)"
  proof (cases "cnt aggs = 0")
    case True
    then show ?thesis by (simp add: terminate_def)
  next
    case False
    from ok [OF False] False show ?thesis
      by (simp add: terminate_def Let_def)
  qed
  from a b c show ?thesis by blast
qed

theorem reachable_precision_invariant_witness:
  "reachable \<lparr>sum_v = 7 :: int, cnt = 1, p_in_stored = 75, s_in_stored = 2\<rparr>
   \<and> 0 <s (1 :: vint)
   \<and> fst (terminate int_vdiv \<lparr>sum_v = 7 :: int, cnt = 1, p_in_stored = 75, s_in_stored = 2\<rparr>)
       \<noteq> Inl (CorruptState StoredPrecision 75)"
proof -
  have step: "aggregate \<lparr>inType = \<lparr>isNumeric = True, getNumericPrecision = 75, getNumericScale = 2\<rparr>,
         row = Some 7, rest = []\<rparr>
        (initAggregate \<lparr>sum_v = 0 :: int, cnt = 0, p_in_stored = 0, s_in_stored = 0\<rparr>)
       = Inr \<lparr>sum_v = 7, cnt = 1, p_in_stored = 75, s_in_stored = 2\<rparr>"
    by (simp add: aggregate_def record_input_type_def aggregate_row_def initAggregate_def
        Let_def widen_def MAX_NUMERIC_PRECISION_def word_sle_eq word_sless_alt)
  have r: "reachable \<lparr>sum_v = 7 :: int, cnt = 1, p_in_stored = 75, s_in_stored = 2\<rparr>"
    by (rule reachable.aggregate [OF reachable.init step])
  show ?thesis
    using r reachable_precision_invariant [OF r, of int_vdiv 75]
    by (simp add: word_sless_alt)
qed

section \<open>The precision certificate on merged states\<close>

lemma reachable_combine_steps:
  "reachable a \<Longrightarrow> \<forall>other \<in> set others. reachable other \<Longrightarrow> reachable (combine_steps a others)"
  by (induction others arbitrary: a) (simp_all add: reachable.combine)

lemma merged_reachable: "merged aggs \<Longrightarrow> reachable aggs"
proof (induction rule: merged.induct)
  case (fresh aggs)
  show ?case by (rule reachable.init)
next
  case (rows aggs argReader aggs')
  then show ?case by (auto intro: reachable.aggregate)
next
  case (partials aggs other others)
  then show ?case
    unfolding combine_def by (intro reachable_combine_steps) auto
qed

lemma record_input_type_scale:
  assumes "record_input_type ty aggs = Inr aggs'"
    and "0 \<le> sint (getNumericScale ty)" and "0 \<le> sint (s_in_stored aggs)"
  shows "0 \<le> sint (s_in_stored aggs')"
  using assms
  by (auto simp: record_input_type_def Let_def sint_widen split: if_splits)

lemma combine_steps_scale:
  "0 \<le> sint (s_in_stored a) \<Longrightarrow> 0 \<le> sint (s_in_stored (combine_steps a others))"
  by (induction others arbitrary: a) (simp_all add: combine_step_fields)

lemma merged_scale: "merged aggs \<Longrightarrow> 0 \<le> sint (s_in_stored aggs)"
proof (induction rule: merged.induct)
  case (fresh aggs)
  show ?case by (simp add: initAggregate_def)
next
  case (rows aggs argReader aggs')
  from rows.hyps(3) obtain a1 where
    r: "record_input_type (inType argReader) aggs = Inr a1"
    and a': "aggs' = aggregate_rows (row argReader # rest argReader) a1"
    by (auto simp: aggregate_def split: sum.splits)
  have "0 \<le> sint (s_in_stored a1)"
    using r rows.hyps(2) rows.IH by (rule record_input_type_scale)
  moreover have "s_in_stored aggs' = s_in_stored a1"
    unfolding a' using aggregate_rows_shape [of "row argReader # rest argReader" a1] by blast
  ultimately show ?case by simp
next
  case (partials aggs other others)
  then show ?case
    unfolding combine_def by (intro combine_steps_scale) simp
qed

lemma merged_shape:
  "merged aggs \<Longrightarrow> 0 \<le> sint (p_in_stored aggs) \<and> 0 \<le> sint (s_in_stored aggs)"
  using reachable_invariant [OF merged_reachable] merged_scale by blast

text \<open>
  C1. On every merged state with a row count \<open>n \<ge> 1\<close> the stored precision \<open>p\<close> lies
  in \<open>[1, 1024]\<close>, and \<open>terminate\<close> reports \<open>PrecisionExceeded\<close> if and only if
  \<open>p + decimalDigitCount n > 1024\<close>. When it reports it, no numeric value is written,
  and the error carries \<open>p + decimalDigitCount n\<close>, \<open>p\<close>, \<open>decimalDigitCount n\<close>, \<open>n\<close>
  and 1024; when \<open>p + decimalDigitCount n \<le> 1024\<close> it does not report it.
\<close>

theorem terminate_precision_certificate:
  assumes m: "merged aggs" and c: "0 <s cnt aggs"
  shows "1 \<le> sint (p_in_stored aggs) \<and> sint (p_in_stored aggs) \<le> 1024
     \<and> raises_PrecisionExceeded (fst (terminate vdiv aggs))
           = (1024 < sint (p_in_stored aggs) + int (decimalDigitCount (nat (sint (cnt aggs)))))
     \<and> (raises_PrecisionExceeded (fst (terminate vdiv aggs))
           \<longrightarrow> \<not> returns_numeric (fst (terminate vdiv aggs)))
     \<and> (sint (p_in_stored aggs) + int (decimalDigitCount (nat (sint (cnt aggs)))) \<le> 1024
           \<longrightarrow> \<not> raises_PrecisionExceeded (fst (terminate vdiv aggs)))
     \<and> (1024 < sint (p_in_stored aggs) + int (decimalDigitCount (nat (sint (cnt aggs))))
           \<longrightarrow> (\<exists>p_needed p_in digitsN.
               sint p_needed
                 = sint (p_in_stored aggs) + int (decimalDigitCount (nat (sint (cnt aggs))))
             \<and> sint p_in = sint (p_in_stored aggs)
             \<and> sint digitsN = int (decimalDigitCount (nat (sint (cnt aggs))))
             \<and> fst (terminate vdiv aggs)
                 = Inl (PrecisionExceeded p_needed p_in digitsN (cnt aggs) MAX_NUMERIC_PRECISION)))"
proof -
  let ?k = "decimalDigitCount (nat (sint (cnt aggs)))"
  let ?p_in = "narrow (p_in_stored aggs)"
  let ?digitsN = "digits_loop (cnt aggs) 0"
  have s: "0 \<le> sint (s_in_stored aggs)" using m by (rule merged_scale)
  have r: "reachable aggs" using m by (rule merged_reachable)
  have "sint (cnt aggs) \<noteq> 0" using c by (simp add: word_sless_alt)
  then have c0: "cnt aggs \<noteq> 0" by (simp add: sint_eq_0_iff)
  from reachable_invariant [OF r] c0
  have p0: "p_in_stored aggs \<noteq> 0" and lo: "0 \<le> sint (p_in_stored aggs)"
    and p2: "sint (p_in_stored aggs) \<le> 1024" by auto
  from p0 have "sint (p_in_stored aggs) \<noteq> 0" by (simp add: sint_eq_0_iff)
  with lo have p1: "1 \<le> sint (p_in_stored aggs)" by simp
  note out = terminate_count_pos [OF c p1 p2 s, of vdiv]
  have d: "sint ?digitsN = int ?k" using c by (rule digits_loop_sint)
  have n: "sint ?p_in = sint (p_in_stored aggs)"
    using p1 p2 by (intro sint_narrow) auto
  have k19: "?k \<le> 19" by (rule decimalDigitCount_vint)
  have need: "sint (?p_in + ?digitsN) = sint (p_in_stored aggs) + int ?k"
    using sint32_add [of ?p_in ?digitsN] n d p1 p2 k19 by simp
  have iff: "raises_PrecisionExceeded (fst (terminate vdiv aggs))
           = (1024 < sint (p_in_stored aggs) + int ?k)"
    by (simp add: out)
  have excl: "raises_PrecisionExceeded (fst (terminate vdiv aggs))
           \<longrightarrow> \<not> returns_numeric (fst (terminate vdiv aggs))"
    by (simp add: out)
  have never: "sint (p_in_stored aggs) + int ?k \<le> 1024
           \<longrightarrow> \<not> raises_PrecisionExceeded (fst (terminate vdiv aggs))"
    by (simp add: out)
  have rep: "1024 < sint (p_in_stored aggs) + int ?k
      \<longrightarrow> fst (terminate vdiv aggs)
            = Inl (PrecisionExceeded (?p_in + ?digitsN) ?p_in ?digitsN (cnt aggs)
                MAX_NUMERIC_PRECISION)"
    by (simp add: out)
  from p1 p2 iff excl never rep need n d show ?thesis by blast
qed

theorem terminate_precision_certificate_witness:
  "merged \<lparr>sum_v = 7 :: int, cnt = 1, p_in_stored = 1024, s_in_stored = 2\<rparr>
   \<and> 0 <s (1 :: vint)
   \<and> raises_PrecisionExceeded
       (fst (terminate int_vdiv \<lparr>sum_v = 7, cnt = 1, p_in_stored = 1024, s_in_stored = 2\<rparr>))
   \<and> \<not> returns_numeric
       (fst (terminate int_vdiv \<lparr>sum_v = 7, cnt = 1, p_in_stored = 1024, s_in_stored = 2\<rparr>))
   \<and> merged \<lparr>sum_v = 7 :: int, cnt = 1, p_in_stored = 1023, s_in_stored = 2\<rparr>
   \<and> \<not> raises_PrecisionExceeded
       (fst (terminate int_vdiv \<lparr>sum_v = 7, cnt = 1, p_in_stored = 1023, s_in_stored = 2\<rparr>))"
proof -
  have step1: "aggregate
        \<lparr>inType = \<lparr>isNumeric = True, getNumericPrecision = 1024, getNumericScale = 2\<rparr>,
         row = Some 7, rest = []\<rparr>
        (initAggregate \<lparr>sum_v = 0 :: int, cnt = 0, p_in_stored = 0, s_in_stored = 0\<rparr>)
       = Inr \<lparr>sum_v = 7, cnt = 1, p_in_stored = 1024, s_in_stored = 2\<rparr>"
    by (simp add: aggregate_def record_input_type_def aggregate_row_def initAggregate_def
        Let_def widen_def MAX_NUMERIC_PRECISION_def word_sle_eq word_sless_alt)
  have step2: "aggregate
        \<lparr>inType = \<lparr>isNumeric = True, getNumericPrecision = 1023, getNumericScale = 2\<rparr>,
         row = Some 7, rest = []\<rparr>
        (initAggregate \<lparr>sum_v = 0 :: int, cnt = 0, p_in_stored = 0, s_in_stored = 0\<rparr>)
       = Inr \<lparr>sum_v = 7, cnt = 1, p_in_stored = 1023, s_in_stored = 2\<rparr>"
    by (simp add: aggregate_def record_input_type_def aggregate_row_def initAggregate_def
        Let_def widen_def MAX_NUMERIC_PRECISION_def word_sle_eq word_sless_alt)
  have m1: "merged \<lparr>sum_v = 7 :: int, cnt = 1, p_in_stored = 1024, s_in_stored = 2\<rparr>"
    by (rule merged.rows [OF merged.fresh _ step1]) simp
  have m2: "merged \<lparr>sum_v = 7 :: int, cnt = 1, p_in_stored = 1023, s_in_stored = 2\<rparr>"
    by (rule merged.rows [OF merged.fresh _ step2]) simp
  have c: "0 <s (1 :: vint)" by (simp add: word_sless_alt)
  show ?thesis
    using m1 m2 c
      terminate_precision_certificate [OF m1, of int_vdiv]
      terminate_precision_certificate [OF m2, of int_vdiv]
    by (simp add: decimalDigitCount.simps)
qed

end
